theory Spec2Isabelle
  imports Main
begin

section \<open>Data model of the chat component (src/src/App.tsx)\<close>

text \<open>\<^verbatim>\<open>const MAX_MESSAGES = 5000;\<close>\<close>

definition MAX_MESSAGES :: nat where
  "MAX_MESSAGES = 5000"

text \<open>
  \<^verbatim>\<open>interface Message { text: string; isUser: boolean; id: string }\<close>
  The fields \<^verbatim>\<open>text\<close> and \<^verbatim>\<open>id\<close> carry a suffix, since both names are taken in
  Isabelle.
\<close>

record Message =
  text_msg :: string
  isUser :: bool
  id_msg :: string

text \<open>
  What the \<^verbatim>\<open>catch\<close> block of \<^verbatim>\<open>sendMessage\<close> looks at in a thrown value:
  \<^verbatim>\<open>axios.isAxiosError(error)\<close>, \<^verbatim>\<open>error.name\<close> and \<^verbatim>\<open>error.response?.status\<close>.
\<close>

record error =
  isAxiosError :: bool
  name :: string
  response_status :: "nat option"

text \<open>
  The value axios rejects with when the request's signal is aborted: an axios error
  whose name is \<^verbatim>\<open>CanceledError\<close> and that carries no response.
\<close>

definition canceledError :: error where
  "canceledError = \<lparr>isAxiosError = True, name = ''CanceledError'', response_status = None\<rparr>"

text \<open>
  The \<^verbatim>\<open>TypeError\<close> JavaScript throws when a property of \<^verbatim>\<open>undefined\<close> is read, as
  \<^verbatim>\<open>response.data.choices[0].message.content\<close> does on a body of another shape.
\<close>

definition typeError :: error where
  "typeError = \<lparr>isAxiosError = False, name = ''TypeError'', response_status = None\<rparr>"

text \<open>
  The part of an HTTP response the component reads: \<^verbatim>\<open>data\<close>, its \<^verbatim>\<open>choices\<close>
  array, each choice's \<^verbatim>\<open>message\<close> and the message's \<^verbatim>\<open>content\<close>. A part that is
  absent (\<^verbatim>\<open>undefined\<close>) is \<open>None\<close>.
\<close>

record chat_message =
  content :: string

record choice =
  message :: "chat_message option"

record response_data =
  choices :: "choice list option"

record response =
  data :: "response_data option"

text \<open>
  \<^verbatim>\<open>response.data.choices[0].message.content\<close>; \<open>None\<close> when the read throws.
\<close>

definition response_content :: "response \<Rightarrow> string option" where
  "response_content r =
     (case data r of
        None \<Rightarrow> None
      | Some d \<Rightarrow>
          (case choices d of
             None \<Rightarrow> None
           | Some cs \<Rightarrow>
               (case cs of
                  [] \<Rightarrow> None
                | c # _ \<Rightarrow>
                    (case message c of
                       None \<Rightarrow> None
                     | Some m \<Rightarrow> Some (content m)))))"

text \<open>
  The component: the three \<^verbatim>\<open>useState\<close> cells, the \<^verbatim>\<open>useRef\<close> cell, and the part
  of the environment its callbacks act on. Every accepted call of \<^verbatim>\<open>sendMessage\<close>
  creates one \<^verbatim>\<open>AbortController\<close>, one timer and one axios request; the three share one
  number, taken from \<open>nextId\<close>.
  \<^item> \<open>aborted\<close>: the controllers whose \<^verbatim>\<open>abort()\<close> has been called;
  \<^item> \<open>inflight\<close>: the requests whose promise has not settled yet;
  \<^item> \<open>timers\<close>: the pending \<^verbatim>\<open>setTimeout\<close> callbacks with the time they are due;
  \<^item> \<open>clock\<close>: the current time in milliseconds, which is also \<^verbatim>\<open>Date.now()\<close>.
\<close>

record state =
  input :: string
  messages :: "Message list"
  isLoading :: bool
  abortControllerRef :: "nat option"
  aborted :: "nat list"
  inflight :: "nat list"
  timers :: "(nat \<times> nat) list"
  nextId :: nat
  clock :: nat

definition init :: "nat \<Rightarrow> state" where
  "init t0 = \<lparr>input = [], messages = [], isLoading = False, abortControllerRef = None,
     aborted = [], inflight = [], timers = [], nextId = 0, clock = t0\<rparr>"

section \<open>Library functions of JavaScript used by the component\<close>

text \<open>
  \<^verbatim>\<open>String.prototype.trim\<close> removes white space and line terminators at both ends. Of
  those, the ones that fit a \<open>char\<close> are TAB, LF, VT, FF, CR, SP and NBSP.
\<close>

definition isWhiteSpace :: "char \<Rightarrow> bool" where
  "isWhiteSpace c \<longleftrightarrow>
     c = CHR 0x09 \<or> c = CHR 0x0A \<or> c = CHR 0x0B \<or> c = CHR 0x0C \<or> c = CHR 0x0D \<or>
     c = CHR 0x20 \<or> c = CHR 0xA0"

definition trim :: "string \<Rightarrow> string" where
  "trim s = rev (dropWhile isWhiteSpace (rev (dropWhile isWhiteSpace s)))"

text \<open>\<^verbatim>\<open>Array.prototype.slice(-n)\<close>: the last \<open>n\<close> elements, all of them if there are fewer.\<close>

definition slice_last :: "nat \<Rightarrow> 'a list \<Rightarrow> 'a list" where
  "slice_last n xs = drop (length xs - n) xs"

text \<open>\<^verbatim>\<open>Number.prototype.toString(36)\<close> on a non-negative integer.\<close>

definition digits36 :: string where
  "digits36 = ''0123456789abcdefghijklmnopqrstuvwxyz''"

function toString36 :: "nat \<Rightarrow> string" where
  "toString36 n =
     (if n < 36 then [digits36 ! n]
      else toString36 (n div 36) @ [digits36 ! (n mod 36)])"
  by pat_completeness auto
termination
  by (relation "measure (\<lambda>n. n)") auto

declare toString36.simps [simp del]

section \<open>The callbacks of the component\<close>

text \<open>
  \<^verbatim>\<open>setMessagesWithLimit\<close>: \<^verbatim>\<open>newMessages.length > MAX_MESSAGES ?
  newMessages.slice(-MAX_MESSAGES) : newMessages\<close>.
\<close>

definition setMessagesWithLimit :: "Message list \<Rightarrow> Message list" where
  "setMessagesWithLimit newMessages =
     (if length newMessages > MAX_MESSAGES then slice_last MAX_MESSAGES newMessages
      else newMessages)"

text \<open>
  \<^verbatim>\<open>createMessageId\<close>: \<^verbatim>\<open>Date.now().toString(36) + Math.random().toString(36).substr(2)\<close>.
  The first argument is \<^verbatim>\<open>Date.now()\<close>; the second is the string
  \<^verbatim>\<open>Math.random().toString(36)\<close>, the base-36 rendering of a floating-point number, which
  is taken as it comes.
\<close>

definition createMessageId :: "nat \<Rightarrow> string \<Rightarrow> string" where
  "createMessageId now rnd = toString36 now @ drop 2 rnd"

text \<open>\<^verbatim>\<open>AbortController.abort()\<close> on controller \<open>c\<close>.\<close>

definition abort :: "nat \<Rightarrow> state \<Rightarrow> state" where
  "abort c s = s\<lparr>aborted := c # aborted s\<rparr>"

text \<open>\<^verbatim>\<open>cancelPreviousRequest\<close>\<close>

definition cancelPreviousRequest :: "state \<Rightarrow> state" where
  "cancelPreviousRequest s =
     (case abortControllerRef s of
        None \<Rightarrow> s
      | Some c \<Rightarrow> (abort c s)\<lparr>abortControllerRef := None\<rparr>)"

text \<open>
  The \<^verbatim>\<open>try\<close> block of \<^verbatim>\<open>sendMessage\<close> up to its \<^verbatim>\<open>await\<close>: a new controller goes
  into the ref, the 30000 ms timer is set and the request is posted.
\<close>

definition sendMessage_post :: "state \<Rightarrow> state" where
  "sendMessage_post s =
     (let c = nextId s in
      s\<lparr>abortControllerRef := Some c,
        timers := timers s @ [(c, clock s + 30000)],
        inflight := inflight s @ [c],
        nextId := Suc c\<rparr>)"

text \<open>The user message built by \<^verbatim>\<open>sendMessage\<close>.\<close>

definition userMessage :: "string \<Rightarrow> state \<Rightarrow> Message" where
  "userMessage rnd s =
     \<lparr>text_msg = trim (input s), isUser = True, id_msg = createMessageId (clock s) rnd\<rparr>"

text \<open>
  \<^verbatim>\<open>sendMessage\<close> from its start to the \<^verbatim>\<open>await\<close>. \<open>rnd\<close> is the random string drawn
  for the id of the user message.
\<close>

definition sendMessage :: "string \<Rightarrow> state \<Rightarrow> state" where
  "sendMessage rnd s =
     (let trimmedInput = trim (input s) in
      if trimmedInput = [] \<or> isLoading s then s
      else
        let s1 = cancelPreviousRequest s;
            s2 = s1\<lparr>isLoading := True\<rparr>;
            s3 = s2\<lparr>messages := setMessagesWithLimit (messages s2 @ [userMessage rnd s])\<rparr>;
            s4 = s3\<lparr>input := []\<rparr>
        in sendMessage_post s4)"

text \<open>The \<^verbatim>\<open>finally\<close> block.\<close>

definition sendMessage_finally :: "state \<Rightarrow> state" where
  "sendMessage_finally s = s\<lparr>isLoading := False, abortControllerRef := None\<rparr>"

text \<open>The message built in the \<^verbatim>\<open>catch\<close> block.\<close>

definition errorMessage :: "error \<Rightarrow> string \<Rightarrow> state \<Rightarrow> Message" where
  "errorMessage err rnd s =
     \<lparr>text_msg =
        (if isAxiosError err \<and> response_status err = Some 429
         then ''Rate limit exceeded. Please try again later.''
         else ''Error: Failed to get response''),
      isUser = False,
      id_msg = createMessageId (clock s) rnd\<rparr>"

text \<open>The \<^verbatim>\<open>catch\<close> block.\<close>

definition sendMessage_catch :: "error \<Rightarrow> string \<Rightarrow> state \<Rightarrow> state" where
  "sendMessage_catch err rnd s =
     (if isAxiosError err \<and> name err = ''CanceledError'' then s
      else s\<lparr>messages := setMessagesWithLimit (messages s @ [errorMessage err rnd s])\<rparr>)"

text \<open>\<^verbatim>\<open>clearTimeout(timeoutId)\<close>\<close>

definition clearTimeout :: "nat \<Rightarrow> state \<Rightarrow> state" where
  "clearTimeout tid s = s\<lparr>timers := filter (\<lambda>t. fst t \<noteq> tid) (timers s)\<rparr>"

text \<open>The message built from a response.\<close>

definition botMessage :: "string \<Rightarrow> string \<Rightarrow> state \<Rightarrow> Message" where
  "botMessage txt rnd s =
     \<lparr>text_msg = txt, isUser = False, id_msg = createMessageId (clock s) rnd\<rparr>"

text \<open>
  \<^verbatim>\<open>sendMessage\<close> after the \<^verbatim>\<open>await\<close>, when the promise of request \<open>c\<close> resolved with
  \<open>resp\<close>: the timer is cleared and the bot message appended; a body from which the
  content cannot be read throws into the \<^verbatim>\<open>catch\<close> block.
\<close>

definition sendMessage_resolved :: "nat \<Rightarrow> response \<Rightarrow> string \<Rightarrow> state \<Rightarrow> state" where
  "sendMessage_resolved c resp rnd s =
     (let s1 = clearTimeout c s in
      sendMessage_finally
        (case response_content resp of
           None \<Rightarrow> sendMessage_catch typeError rnd s1
         | Some txt \<Rightarrow>
             s1\<lparr>messages := setMessagesWithLimit (messages s1 @ [botMessage txt rnd s1])\<rparr>))"

text \<open>\<^verbatim>\<open>sendMessage\<close> after the \<^verbatim>\<open>await\<close>, when the promise rejected with \<open>err\<close>.\<close>

definition sendMessage_rejected :: "error \<Rightarrow> string \<Rightarrow> state \<Rightarrow> state" where
  "sendMessage_rejected err rnd s = sendMessage_finally (sendMessage_catch err rnd s)"

text \<open>
  The callback given to \<^verbatim>\<open>setTimeout\<close>: it aborts whatever controller the ref holds
  when it runs.
\<close>

definition timeout_callback :: "state \<Rightarrow> state" where
  "timeout_callback s =
     (case abortControllerRef s of
        None \<Rightarrow> s
      | Some c \<Rightarrow> abort c s)"

section \<open>The event loop\<close>

text \<open>
  After a callback has run, the pending promise reactions run: axios rejects every
  request in flight whose signal was aborted with \<open>canceledError\<close>, and the rest of that
  call of \<^verbatim>\<open>sendMessage\<close> runs. No id is drawn on that path.
\<close>

definition settle_aborted :: "nat \<Rightarrow> state \<Rightarrow> state" where
  "settle_aborted c s =
     (if c \<in> set (aborted s)
      then sendMessage_rejected canceledError [] (s\<lparr>inflight := removeAll c (inflight s)\<rparr>)
      else s)"

definition flush_aborted :: "state \<Rightarrow> state" where
  "flush_aborted s = fold settle_aborted (inflight s) s"

text \<open>A timer fires: its callback runs, then the promise reactions.\<close>

definition timer_task :: "state \<Rightarrow> state" where
  "timer_task s = flush_aborted (timeout_callback s)"

text \<open>
  Time passes by \<open>d\<close> milliseconds with no other event: the timers that fall due fire in
  the order they were set.
\<close>

definition advance :: "nat \<Rightarrow> state \<Rightarrow> state" where
  "advance d s =
     (let t = clock s + d;
          due = filter (\<lambda>x. snd x \<le> t) (timers s);
          s1 = s\<lparr>clock := t, timers := filter (\<lambda>x. \<not> snd x \<le> t) (timers s)\<rparr>
      in fold (\<lambda>_. timer_task) due s1)"

text \<open>
  The events of a session:
  \<^item> \<open>SetInput v\<close>: the debounced \<^verbatim>\<open>setInput(v)\<close> runs;
  \<^item> \<open>Submit rnd\<close>: the button's \<^verbatim>\<open>onClick\<close> or the Enter key calls \<^verbatim>\<open>sendMessage()\<close>;
  \<^item> \<open>Resolve c resp rnd\<close>: the promise of request \<open>c\<close> resolves with \<open>resp\<close>;
  \<^item> \<open>Reject c err rnd\<close>: the promise of request \<open>c\<close> rejects with \<open>err\<close>;
  \<^item> \<open>Advance d\<close>: \<open>d\<close> milliseconds pass.
  \<open>rnd\<close> is the random string drawn if the callback creates a message. The component has
  rendered again between two events, so a callback reads the current state. A session
  ends before the component is unmounted.
\<close>

datatype event =
    SetInput string
  | Submit string
  | Resolve nat response string
  | Reject nat error string
  | Advance nat

fun step :: "event \<Rightarrow> state \<Rightarrow> state" where
  "step (SetInput v) s = s\<lparr>input := v\<rparr>"
| "step (Submit rnd) s = flush_aborted (sendMessage rnd s)"
| "step (Resolve c resp rnd) s =
     (if c \<in> set (inflight s)
      then sendMessage_resolved c resp rnd (s\<lparr>inflight := removeAll c (inflight s)\<rparr>)
      else s)"
| "step (Reject c err rnd) s =
     (if c \<in> set (inflight s)
      then sendMessage_rejected err rnd (s\<lparr>inflight := removeAll c (inflight s)\<rparr>)
      else s)"
| "step (Advance d) s = advance d s"

text \<open>A session: the events run one after the other.\<close>

fun run :: "event list \<Rightarrow> state \<Rightarrow> state" where
  "run [] s = s"
| "run (e # es) s = run es (step e s)"

section \<open>What the page shows\<close>

text \<open>
  The \<^verbatim>\<open>disabled\<close> attributes of the text area and of the send button:
  \<^verbatim>\<open>disabled={isLoading}\<close> and \<^verbatim>\<open>disabled={isLoading || !input.trim()}\<close>.
\<close>

definition textarea_disabled :: "state \<Rightarrow> bool" where
  "textarea_disabled s = isLoading s"

definition button_disabled :: "state \<Rightarrow> bool" where
  "button_disabled s = (isLoading s \<or> trim (input s) = [])"

section \<open>Values used in the examples\<close>

text \<open>A response whose body has the expected shape, and two HTTP errors as axios reports them.\<close>

definition sample_reply :: response where
  "sample_reply =
     \<lparr>data = Some \<lparr>choices = Some [\<lparr>message = Some \<lparr>content = ''Hello!''\<rparr>\<rparr>]\<rparr>\<rparr>"

definition sample_rate_limited :: error where
  "sample_rate_limited =
     \<lparr>isAxiosError = True, name = ''AxiosError'', response_status = Some 429\<rparr>"

definition sample_server_error :: error where
  "sample_server_error =
     \<lparr>isAxiosError = True, name = ''AxiosError'', response_status = Some 500\<rparr>"

section \<open>The invariant of a session\<close>

text \<open>
  What holds between two events of a session: the history is within the cap, every
  controller that was aborted has been created, and either no request is in flight, the
  loading flag is down and the ref is empty, or exactly one request is in flight, the
  loading flag is up and the ref holds that request's controller, which is not aborted.
\<close>

definition inv :: "state \<Rightarrow> bool" where
  "inv s \<longleftrightarrow>
     length (messages s) \<le> MAX_MESSAGES \<and>
     list_all (\<lambda>a. a < nextId s) (aborted s) \<and>
     (case inflight s of
        [] \<Rightarrow> \<not> isLoading s \<and> abortControllerRef s = None
      | c # cs \<Rightarrow> cs = [] \<and> isLoading s \<and> abortControllerRef s = Some c \<and>
                 c < nextId s \<and> c \<notin> set (aborted s))"

section \<open>The capped history\<close>

lemma setMessagesWithLimit_drop:
  "setMessagesWithLimit xs = drop (length xs - MAX_MESSAGES) xs"
  by (simp add: setMessagesWithLimit_def slice_last_def)

lemma length_setMessagesWithLimit:
  "length (setMessagesWithLimit xs) \<le> MAX_MESSAGES"
  by (simp add: setMessagesWithLimit_drop)


lemma last_setMessagesWithLimit:
  "last (setMessagesWithLimit (xs @ [m])) = m"
  by (simp add: setMessagesWithLimit_drop MAX_MESSAGES_def)

lemma last_in_setMessagesWithLimit:
  "xs \<noteq> [] \<Longrightarrow> last xs \<in> set (setMessagesWithLimit (xs @ [m]))"
proof -
  assume ne: "xs \<noteq> []"
  let ?k = "length xs - 4999"
  have k: "?k < length xs" using ne by (cases xs) auto
  then have "drop ?k xs \<noteq> []" by simp
  then have "last (drop ?k xs) \<in> set (drop ?k xs)" by (rule last_in_set)
  moreover have "last (drop ?k xs) = last xs" using k by (simp add: last_drop)
  ultimately show ?thesis
    by (simp add: setMessagesWithLimit_drop MAX_MESSAGES_def)
qed

section \<open>Sessions and the invariant\<close>

lemma run_append: "run (es @ fs) s = run fs (run es s)"
  by (induction es arbitrary: s) simp_all

lemma messages_settle_aborted: "messages (settle_aborted c s) = messages s"
  by (simp add: settle_aborted_def sendMessage_rejected_def sendMessage_catch_def
      sendMessage_finally_def canceledError_def)

lemma messages_fold:
  "(\<And>x s. messages (f x s) = messages s) \<Longrightarrow> messages (fold f xs s) = messages s"
  by (induction xs arbitrary: s) simp_all

lemma messages_flush_aborted: "messages (flush_aborted s) = messages s"
  by (simp add: flush_aborted_def messages_fold messages_settle_aborted)

lemma messages_timeout_callback: "messages (timeout_callback s) = messages s"
  by (simp add: timeout_callback_def abort_def split: option.splits)

lemma messages_advance: "messages (advance d s) = messages s"
  by (simp add: advance_def Let_def timer_task_def messages_fold messages_flush_aborted
      messages_timeout_callback)


lemma flush_aborted_Nil: "inflight s = [] \<Longrightarrow> flush_aborted s = s"
  by (simp add: flush_aborted_def)

lemma flush_aborted_single:
  "inflight s = [c] \<Longrightarrow> c \<notin> set (aborted s) \<Longrightarrow> flush_aborted s = s"
  by (simp add: flush_aborted_def settle_aborted_def)

lemma flush_aborted_cancel:
  "inflight s = [c] \<Longrightarrow> c \<in> set (aborted s) \<Longrightarrow>
   flush_aborted s = s\<lparr>inflight := [], isLoading := False, abortControllerRef := None\<rparr>"
  by (simp add: flush_aborted_def settle_aborted_def sendMessage_rejected_def
      sendMessage_catch_def sendMessage_finally_def canceledError_def)


lemma timer_task_idle:
  "inflight s = [] \<Longrightarrow> abortControllerRef s = None \<Longrightarrow> timer_task s = s"
  by (simp add: timer_task_def timeout_callback_def flush_aborted_Nil)

lemma timer_task_pending:
  "inflight s = [c] \<Longrightarrow> abortControllerRef s = Some c \<Longrightarrow>
   timer_task s =
     s\<lparr>aborted := c # aborted s, inflight := [], isLoading := False,
       abortControllerRef := None\<rparr>"
  by (simp add: timer_task_def timeout_callback_def abort_def flush_aborted_cancel)

lemma fold_timer_task_idle:
  "inflight s = [] \<Longrightarrow> abortControllerRef s = None \<Longrightarrow>
   fold (\<lambda>_. timer_task) xs s = s"
  by (induction xs) (simp_all add: timer_task_idle)

lemma fold_timer_task_pending:
  "inflight s = [c] \<Longrightarrow> abortControllerRef s = Some c \<Longrightarrow> xs \<noteq> [] \<Longrightarrow>
   fold (\<lambda>_. timer_task) xs s = timer_task s"
  by (cases xs) (simp_all add: timer_task_pending fold_timer_task_idle)

lemma advance_timer_task:
  "advance d s =
     fold (\<lambda>_. timer_task) (filter (\<lambda>x. snd x \<le> clock s + d) (timers s))
       (s\<lparr>clock := clock s + d, timers := filter (\<lambda>x. \<not> snd x \<le> clock s + d) (timers s)\<rparr>)"
  by (simp add: advance_def Let_def)

lemma advance_idle:
  "inflight s = [] \<Longrightarrow> abortControllerRef s = None \<Longrightarrow>
   advance d s =
     s\<lparr>clock := clock s + d, timers := filter (\<lambda>x. \<not> snd x \<le> clock s + d) (timers s)\<rparr>"
  by (simp add: advance_timer_task fold_timer_task_idle)

lemma advance_pending_due:
  "inflight s = [c] \<Longrightarrow> abortControllerRef s = Some c \<Longrightarrow>
   \<exists>x \<in> set (timers s). snd x \<le> clock s + d \<Longrightarrow>
   advance d s =
     s\<lparr>clock := clock s + d, timers := filter (\<lambda>x. \<not> snd x \<le> clock s + d) (timers s),
       aborted := c # aborted s, inflight := [], isLoading := False,
       abortControllerRef := None\<rparr>"
  by (simp add: advance_timer_task fold_timer_task_pending filter_empty_conv timer_task_pending)

lemma advance_pending_early:
  "\<forall>x \<in> set (timers s). \<not> snd x \<le> clock s + d \<Longrightarrow>
   advance d s = s\<lparr>clock := clock s + d\<rparr>"
proof -
  assume a: "\<forall>x \<in> set (timers s). \<not> snd x \<le> clock s + d"
  then have "filter (\<lambda>x. snd x \<le> clock s + d) (timers s) = []"
    by (simp add: filter_empty_conv)
  moreover have "filter (\<lambda>x. \<not> snd x \<le> clock s + d) (timers s) = timers s"
    using a by (simp add: filter_id_conv)
  ultimately show ?thesis
    by (simp add: advance_timer_task)
qed


lemma inv_cases:
  assumes "inv s"
  obtains
    (idle) "inflight s = []" "\<not> isLoading s" "abortControllerRef s = None"
      "length (messages s) \<le> MAX_MESSAGES" "\<forall>a \<in> set (aborted s). a < nextId s"
  | (pending) c where "inflight s = [c]" "isLoading s" "abortControllerRef s = Some c"
      "c < nextId s" "c \<notin> set (aborted s)" "length (messages s) \<le> MAX_MESSAGES"
      "\<forall>a \<in> set (aborted s). a < nextId s"
  using assms by (auto simp: inv_def list_all_iff split: list.splits)

lemma inv_init: "inv (init t0)"
  by (simp add: inv_def init_def)

lemma sendMessage_loading: "isLoading s \<Longrightarrow> sendMessage rnd s = s"
  by (simp add: sendMessage_def)

lemma sendMessage_blank: "trim (input s) = [] \<Longrightarrow> sendMessage rnd s = s"
  by (simp add: sendMessage_def)

lemma sendMessage_idle:
  "\<not> isLoading s \<Longrightarrow> trim (input s) \<noteq> [] \<Longrightarrow> abortControllerRef s = None \<Longrightarrow>
   sendMessage rnd s =
     s\<lparr>isLoading := True,
       messages := setMessagesWithLimit (messages s @ [userMessage rnd s]),
       input := [],
       abortControllerRef := Some (nextId s),
       timers := timers s @ [(nextId s, clock s + 30000)],
       inflight := inflight s @ [nextId s],
       nextId := Suc (nextId s)\<rparr>"
  by (simp add: sendMessage_def cancelPreviousRequest_def sendMessage_post_def Let_def)

lemma step_Submit_idle:
  "inflight s = [] \<Longrightarrow> \<not> isLoading s \<Longrightarrow> trim (input s) \<noteq> [] \<Longrightarrow>
   abortControllerRef s = None \<Longrightarrow> nextId s \<notin> set (aborted s) \<Longrightarrow>
   step (Submit rnd) s =
     s\<lparr>isLoading := True,
       messages := setMessagesWithLimit (messages s @ [userMessage rnd s]),
       input := [],
       abortControllerRef := Some (nextId s),
       timers := timers s @ [(nextId s, clock s + 30000)],
       inflight := [nextId s],
       nextId := Suc (nextId s)\<rparr>"
  by (simp add: sendMessage_idle flush_aborted_single)


lemma step_settle_simps:
  "inflight s = [c] \<Longrightarrow>
   step (Reject c err rnd) s = sendMessage_rejected err rnd (s\<lparr>inflight := []\<rparr>)"
  "inflight s = [c] \<Longrightarrow>
   step (Resolve c resp rnd) s = sendMessage_resolved c resp rnd (s\<lparr>inflight := []\<rparr>)"
  "c' \<notin> set (inflight s) \<Longrightarrow> step (Reject c' err rnd) s = s"
  "c' \<notin> set (inflight s) \<Longrightarrow> step (Resolve c' resp rnd) s = s"
  by simp_all

lemma length_limit_le: "length (setMessagesWithLimit xs) \<le> 5000"
  using length_setMessagesWithLimit [of xs] by (simp add: MAX_MESSAGES_def)

lemma botMessage_cong [simp]:
  "botMessage txt rnd (s\<lparr>timers := ts\<rparr>) = botMessage txt rnd s"
  "botMessage txt rnd (s\<lparr>inflight := cs\<rparr>) = botMessage txt rnd s"
  by (simp_all add: botMessage_def)

lemma errorMessage_cong [simp]:
  "errorMessage err rnd (s\<lparr>timers := ts\<rparr>) = errorMessage err rnd s"
  "errorMessage err rnd (s\<lparr>inflight := cs\<rparr>) = errorMessage err rnd s"
  by (simp_all add: errorMessage_def)

lemma sendMessage_resolved_content:
  "response_content resp = Some txt \<Longrightarrow>
   sendMessage_resolved c resp rnd s =
     s\<lparr>timers := filter (\<lambda>t. fst t \<noteq> c) (timers s),
       messages := setMessagesWithLimit (messages s @ [botMessage txt rnd s]),
       isLoading := False, abortControllerRef := None\<rparr>"
  by (simp add: sendMessage_resolved_def clearTimeout_def sendMessage_finally_def Let_def)

lemma sendMessage_resolved_throws:
  "response_content resp = None \<Longrightarrow>
   sendMessage_resolved c resp rnd s =
     s\<lparr>timers := filter (\<lambda>t. fst t \<noteq> c) (timers s),
       messages := setMessagesWithLimit (messages s @ [errorMessage typeError rnd s]),
       isLoading := False, abortControllerRef := None\<rparr>"
  by (simp add: sendMessage_resolved_def clearTimeout_def sendMessage_finally_def Let_def
      sendMessage_catch_def typeError_def)

lemma sendMessage_rejected_canceled:
  "isAxiosError err \<Longrightarrow> name err = ''CanceledError'' \<Longrightarrow>
   sendMessage_rejected err rnd s = s\<lparr>isLoading := False, abortControllerRef := None\<rparr>"
  by (simp add: sendMessage_rejected_def sendMessage_catch_def sendMessage_finally_def)

lemma sendMessage_rejected_failed:
  "\<not> (isAxiosError err \<and> name err = ''CanceledError'') \<Longrightarrow>
   sendMessage_rejected err rnd s =
     s\<lparr>messages := setMessagesWithLimit (messages s @ [errorMessage err rnd s]),
       isLoading := False, abortControllerRef := None\<rparr>"
  by (auto simp: sendMessage_rejected_def sendMessage_catch_def sendMessage_finally_def)

lemma inv_rejected:
  "inv (s\<lparr>inflight := [c]\<rparr>) \<Longrightarrow> inv (sendMessage_rejected err rnd (s\<lparr>inflight := []\<rparr>))"
  by (cases "isAxiosError err \<and> name err = ''CanceledError''")
    (simp_all add: inv_def sendMessage_rejected_canceled sendMessage_rejected_failed
      length_setMessagesWithLimit)

lemma inv_resolved:
  "inv (s\<lparr>inflight := [c]\<rparr>) \<Longrightarrow> inv (sendMessage_resolved c' resp rnd (s\<lparr>inflight := []\<rparr>))"
  by (cases "response_content resp")
    (simp_all add: inv_def sendMessage_resolved_content sendMessage_resolved_throws
      length_setMessagesWithLimit)

lemma inv_step: "inv s \<Longrightarrow> inv (step e s)"
proof (induction e s rule: step.induct)
  case (1 v s)
  then show ?case by (simp add: inv_def split: list.splits)
next
  case (2 rnd s)
  from \<open>inv s\<close> show ?case
  proof (cases rule: inv_cases)
    case idle
    show ?thesis
    proof (cases "trim (input s) = []")
      case True
      with idle \<open>inv s\<close> show ?thesis
        by (simp add: sendMessage_blank flush_aborted_Nil)
    next
      case False
      from idle have "nextId s \<notin> set (aborted s)" by auto
      with idle False have "step (Submit rnd) s =
          s\<lparr>isLoading := True,
            messages := setMessagesWithLimit (messages s @ [userMessage rnd s]),
            input := [],
            abortControllerRef := Some (nextId s),
            timers := timers s @ [(nextId s, clock s + 30000)],
            inflight := [nextId s],
            nextId := Suc (nextId s)\<rparr>"
        by (intro step_Submit_idle)
      with idle show ?thesis
        by (auto simp del: step.simps simp: inv_def length_setMessagesWithLimit list_all_iff
            intro: less_SucI)
    qed
  next
    case (pending c)
    with \<open>inv s\<close> show ?thesis
      by (simp add: sendMessage_loading flush_aborted_single)
  qed
next
  case (3 c resp rnd s)
  from \<open>inv s\<close> show ?case
  proof (cases rule: inv_cases)
    case idle
    with \<open>inv s\<close> show ?thesis by simp
  next
    case (pending c0)
    then have "s\<lparr>inflight := [c0]\<rparr> = s" by simp
    with \<open>inv s\<close> have "inv (s\<lparr>inflight := [c0]\<rparr>)" by simp
    from inv_resolved [OF this] pending \<open>inv s\<close> show ?thesis by simp
  qed
next
  case (4 c err rnd s)
  from \<open>inv s\<close> show ?case
  proof (cases rule: inv_cases)
    case idle
    with \<open>inv s\<close> show ?thesis by simp
  next
    case (pending c0)
    then have "s\<lparr>inflight := [c0]\<rparr> = s" by simp
    with \<open>inv s\<close> have "inv (s\<lparr>inflight := [c0]\<rparr>)" by simp
    from inv_rejected [OF this] pending \<open>inv s\<close> show ?thesis by simp
  qed
next
  case (5 d s)
  from \<open>inv s\<close> show ?case
  proof (cases rule: inv_cases)
    case idle
    then show ?thesis by (simp add: advance_idle inv_def list_all_iff)
  next
    case (pending c)
    show ?thesis
    proof (cases "\<exists>x \<in> set (timers s). snd x \<le> clock s + d")
      case True
      with pending show ?thesis
        by (simp add: advance_pending_due inv_def list_all_iff)
    next
      case False
      then have "advance d s = s\<lparr>clock := clock s + d\<rparr>"
        by (intro advance_pending_early) simp
      with \<open>inv s\<close> show ?thesis by (simp add: inv_def split: list.splits)
    qed
  qed
qed

lemma inv_run: "inv s \<Longrightarrow> inv (run evs s)"
  by (induction evs arbitrary: s) (simp_all add: inv_step)

lemma inv_reachable: "inv (run evs (init t0))"
  by (simp add: inv_run inv_init)


lemma inv_inflight_fresh: "inv s \<Longrightarrow> c \<in> set (inflight s) \<Longrightarrow> c < nextId s"
  by (erule inv_cases) auto

lemma inv_pending_loading: "inv s \<Longrightarrow> inflight s \<noteq> [] \<Longrightarrow> isLoading s"
  by (erule inv_cases) auto

lemma inv_loading_pending: "inv s \<Longrightarrow> isLoading s \<Longrightarrow> inflight s \<noteq> []"
  by (erule inv_cases) auto

lemma step_Submit_pending:
  "inv s \<Longrightarrow> inflight s \<noteq> [] \<Longrightarrow> step (Submit rnd) s = s"
  by (erule inv_cases) (simp_all add: sendMessage_loading flush_aborted_single)

lemma step_Submit_blank:
  "inv s \<Longrightarrow> trim (input s) = [] \<Longrightarrow> step (Submit rnd) s = s"
  by (erule inv_cases) (simp_all add: sendMessage_blank flush_aborted_single flush_aborted_Nil)

lemma step_Submit_accept:
  assumes "inv s" "\<not> isLoading s" "trim (input s) \<noteq> []"
  shows "step (Submit rnd) s =
     s\<lparr>isLoading := True,
       messages := setMessagesWithLimit (messages s @ [userMessage rnd s]),
       input := [],
       abortControllerRef := Some (nextId s),
       timers := timers s @ [(nextId s, clock s + 30000)],
       inflight := [nextId s],
       nextId := Suc (nextId s)\<rparr>"
  using assms(1)
proof (cases rule: inv_cases)
  case idle
  then have "nextId s \<notin> set (aborted s)" by auto
  with idle assms show ?thesis by (intro step_Submit_idle)
next
  case (pending c)
  with assms show ?thesis by simp
qed

lemma step_keeps_pending:
  assumes "inv s" "c \<in> set (inflight s)" "c \<in> set (inflight (step e s))"
  shows "messages (step e s) = messages s \<and> timers (step e s) = timers s \<and>
         clock s \<le> clock (step e s)"
  using assms(1)
proof (cases rule: inv_cases)
  case idle
  with assms show ?thesis by simp
next
  case (pending c0)
  with assms have c0: "c0 = c" by simp
  have ne: "inflight s \<noteq> []" using pending by simp
  show ?thesis
  proof (cases e)
    case (SetInput v)
    then show ?thesis by simp
  next
    case (Submit rnd)
    with step_Submit_pending [OF assms(1) ne] show ?thesis by (simp del: step.simps)
  next
    case (Resolve c' resp rnd)
    show ?thesis
    proof (cases "c' = c")
      case True
      with assms(3) Resolve pending c0 show ?thesis
        by (cases "response_content resp")
          (simp_all add: sendMessage_resolved_content sendMessage_resolved_throws)
    next
      case False
      with Resolve pending c0 show ?thesis by simp
    qed
  next
    case (Reject c' err rnd)
    show ?thesis
    proof (cases "c' = c")
      case True
      with assms(3) Reject pending c0 show ?thesis
        by (cases "isAxiosError err \<and> name err = ''CanceledError''")
          (simp_all add: sendMessage_rejected_canceled sendMessage_rejected_failed)
    next
      case False
      with Reject pending c0 show ?thesis by simp
    qed
  next
    case (Advance d)
    show ?thesis
    proof (cases "\<exists>x \<in> set (timers s). snd x \<le> clock s + d")
      case True
      with assms(3) Advance pending show ?thesis
        by (simp add: advance_pending_due)
    next
      case False
      then have "advance d s = s\<lparr>clock := clock s + d\<rparr>"
        by (intro advance_pending_early) simp
      with Advance show ?thesis by simp
    qed
  qed
qed

lemma step_inflight_subset:
  assumes "inv s"
  shows "set (inflight (step e s)) \<subseteq> insert (nextId s) (set (inflight s)) \<and>
         nextId s \<le> nextId (step e s)"
  using assms
proof (cases rule: inv_cases)
  case idle
  show ?thesis
  proof (cases e)
    case (SetInput v)
    then show ?thesis by auto
  next
    case (Submit rnd)
    show ?thesis
    proof (cases "trim (input s) = []")
      case True
      with step_Submit_blank [OF assms True] Submit show ?thesis by (auto simp del: step.simps)
    next
      case False
      with step_Submit_accept [OF assms idle(2) False] Submit show ?thesis
        by (auto simp del: step.simps)
    qed
  next
    case (Resolve c' resp rnd)
    with idle show ?thesis by auto
  next
    case (Reject c' err rnd)
    with idle show ?thesis by auto
  next
    case (Advance d)
    with idle show ?thesis by (auto simp: advance_idle)
  qed
next
  case (pending c)
  have ne: "inflight s \<noteq> []" using pending by auto
  show ?thesis
  proof (cases e)
    case (SetInput v)
    then show ?thesis by auto
  next
    case (Submit rnd)
    with step_Submit_pending [OF assms ne] show ?thesis by (auto simp del: step.simps)
  next
    case (Resolve c' resp rnd)
    with pending show ?thesis
      by (cases "response_content resp")
        (auto simp: sendMessage_resolved_content sendMessage_resolved_throws)
  next
    case (Reject c' err rnd)
    with pending show ?thesis
      by (cases "isAxiosError err \<and> name err = ''CanceledError''")
        (auto simp: sendMessage_rejected_canceled sendMessage_rejected_failed)
  next
    case (Advance d)
    show ?thesis
    proof (cases "\<exists>x \<in> set (timers s). snd x \<le> clock s + d")
      case True
      with Advance pending show ?thesis
        by (auto simp: advance_pending_due)
    next
      case False
      then have "advance d s = s\<lparr>clock := clock s + d\<rparr>"
        by (intro advance_pending_early) simp
      with Advance show ?thesis by auto
    qed
  qed
qed

lemma settled_stays_settled:
  "inv s \<Longrightarrow> c < nextId s \<Longrightarrow> c \<notin> set (inflight s) \<Longrightarrow>
   c \<notin> set (inflight (run evs s))"
proof (induction evs arbitrary: s)
  case Nil
  then show ?case by simp
next
  case (Cons e es)
  from step_inflight_subset [OF Cons.prems(1), of e] Cons.prems
  have "c < nextId (step e s)" "c \<notin> set (inflight (step e s))" by auto
  with Cons.IH [OF inv_step [OF Cons.prems(1)]] show ?case by simp
qed

lemma run_keeps_pending:
  "inv s \<Longrightarrow> c \<in> set (inflight s) \<Longrightarrow> c \<in> set (inflight (run evs s)) \<Longrightarrow>
   messages (run evs s) = messages s \<and> timers (run evs s) = timers s \<and>
   clock s \<le> clock (run evs s)"
proof (induction evs arbitrary: s)
  case Nil
  then show ?case by simp
next
  case (Cons e es)
  have i: "inv (step e s)" using Cons.prems(1) by (rule inv_step)
  have fresh: "c < nextId s" using Cons.prems(1,2) by (rule inv_inflight_fresh)
  have still: "c \<in> set (inflight (step e s))"
  proof (rule ccontr)
    assume n: "c \<notin> set (inflight (step e s))"
    from step_inflight_subset [OF Cons.prems(1), of e] fresh
    have "c < nextId (step e s)" by simp
    from settled_stays_settled [OF i this n, of es] Cons.prems(3) show False by simp
  qed
  from step_keeps_pending [OF Cons.prems(1,2) still]
    Cons.IH [OF i still] Cons.prems(3)
  show ?case by simp
qed

section \<open>Message ids\<close>

lemma distinct_digits36: "distinct digits36"
  by (simp add: digits36_def)

lemma length_digits36: "length digits36 = 36"
  by (simp add: digits36_def)

lemma digits36_inj: "a < 36 \<Longrightarrow> b < 36 \<Longrightarrow> digits36 ! a = digits36 ! b \<Longrightarrow> a = b"
  using distinct_digits36 by (simp add: nth_eq_iff_index_eq length_digits36)

lemma toString36_not_Nil: "toString36 n \<noteq> []"
  by (subst toString36.simps) simp

lemma length_toString36_small: "length (toString36 n) = Suc 0 \<longleftrightarrow> n < 36"
  using toString36_not_Nil [of "n div 36"]
  by (subst toString36.simps) (auto simp: Suc_le_eq)

lemma toString36_inj: "toString36 a = toString36 b \<Longrightarrow> a = b"
proof (induction a arbitrary: b rule: toString36.induct)
  case (1 n)
  show ?case
  proof (cases "n < 36")
    case True
    then have "length (toString36 n) = Suc 0" by (simp add: length_toString36_small)
    with "1.prems" have b: "b < 36" by (simp add: length_toString36_small)
    from "1.prems" True b have "digits36 ! n = digits36 ! b"
      by (simp add: toString36.simps [of n] toString36.simps [of b])
    with True b show ?thesis by (rule digits36_inj)
  next
    case False
    then have "length (toString36 n) \<noteq> Suc 0" by (simp add: length_toString36_small)
    with "1.prems" have b: "\<not> b < 36" by (simp add: length_toString36_small)
    from "1.prems" False b
    have eq: "toString36 (n div 36) @ [digits36 ! (n mod 36)] =
              toString36 (b div 36) @ [digits36 ! (b mod 36)]"
      by (simp add: toString36.simps [of n] toString36.simps [of b])
    then have "toString36 (n div 36) = toString36 (b div 36)" by simp
    with "1.IH" False have d: "n div 36 = b div 36" by simp
    from eq have "digits36 ! (n mod 36) = digits36 ! (b mod 36)" by simp
    then have m: "n mod 36 = b mod 36" by (intro digits36_inj) simp_all
    from d m show ?thesis by (metis div_mult_mod_eq)
  qed
qed

text \<open>
  Where the renderings of two times have the same length, two ids are equal exactly when
  the times are equal and the random strings agree from their third character on.
\<close>

lemma createMessageId_eq_iff:
  "length (toString36 t1) = length (toString36 t2) \<Longrightarrow>
   createMessageId t1 r1 = createMessageId t2 r2 \<longleftrightarrow> t1 = t2 \<and> drop 2 r1 = drop 2 r2"
  by (auto simp: createMessageId_def dest: toString36_inj)

section \<open>What one event does to the history\<close>

lemma trim_blank: "trim s = [] \<longleftrightarrow> (\<forall>c \<in> set s. isWhiteSpace c)"
proof -
  have "trim s = [] \<longleftrightarrow> (\<forall>c \<in> set (dropWhile isWhiteSpace s). isWhiteSpace c)"
    by (simp add: trim_def dropWhile_eq_Nil_conv)
  also have "\<dots> \<longleftrightarrow> dropWhile isWhiteSpace s = []"
  proof
    assume a: "\<forall>c \<in> set (dropWhile isWhiteSpace s). isWhiteSpace c"
    show "dropWhile isWhiteSpace s = []"
    proof (rule ccontr)
      assume ne: "dropWhile isWhiteSpace s \<noteq> []"
      then have "\<not> isWhiteSpace (hd (dropWhile isWhiteSpace s))" by (rule hd_dropWhile)
      moreover from ne have "hd (dropWhile isWhiteSpace s) \<in> set (dropWhile isWhiteSpace s)"
        by (rule hd_in_set)
      ultimately show False using a by blast
    qed
  next
    assume "dropWhile isWhiteSpace s = []"
    then show "\<forall>c \<in> set (dropWhile isWhiteSpace s). isWhiteSpace c"
      by (simp del: dropWhile_eq_Nil_conv)
  qed
  also have "\<dots> \<longleftrightarrow> (\<forall>c \<in> set s. isWhiteSpace c)"
    by (simp add: dropWhile_eq_Nil_conv)
  finally show ?thesis .
qed

lemma messages_cancelPreviousRequest: "messages (cancelPreviousRequest s) = messages s"
  by (simp add: cancelPreviousRequest_def abort_def split: option.splits)

lemma messages_sendMessage:
  "messages (sendMessage rnd s) =
     (if trim (input s) = [] \<or> isLoading s then messages s
      else setMessagesWithLimit (messages s @ [userMessage rnd s]))"
  by (simp add: sendMessage_def Let_def sendMessage_post_def messages_cancelPreviousRequest)

lemma messages_rejected:
  "messages (sendMessage_rejected err rnd s) =
     (if isAxiosError err \<and> name err = ''CanceledError'' then messages s
      else setMessagesWithLimit (messages s @ [errorMessage err rnd s]))"
  by (simp add: sendMessage_rejected_def sendMessage_catch_def sendMessage_finally_def)

lemma messages_resolved:
  "messages (sendMessage_resolved c resp rnd s) =
     (case response_content resp of
        None \<Rightarrow> setMessagesWithLimit (messages s @ [errorMessage typeError rnd s])
      | Some txt \<Rightarrow> setMessagesWithLimit (messages s @ [botMessage txt rnd s]))"
  by (simp add: sendMessage_resolved_content sendMessage_resolved_throws split: option.splits)

lemma step_messages:
  "messages (step e s) = messages s \<or>
   (\<exists>m. messages (step e s) = setMessagesWithLimit (messages s @ [m]))"
proof (cases e)
  case (SetInput v)
  then show ?thesis by simp
next
  case (Submit rnd)
  then show ?thesis by (auto simp: messages_flush_aborted messages_sendMessage)
next
  case (Resolve c resp rnd)
  then show ?thesis by (auto simp: messages_resolved split: option.splits)
next
  case (Reject c err rnd)
  then show ?thesis by (auto simp: messages_rejected)
next
  case (Advance d)
  then show ?thesis by (simp add: messages_advance)
qed

section \<open>The history is capped\<close>

text \<open>
  Claim C3. Every value given to the history has passed through
  \<^verbatim>\<open>setMessagesWithLimit\<close>, whose result has at most \<open>MAX_MESSAGES\<close> = 5000 entries and
  is the input without its oldest entries, the others in their order. An event leaves the
  history as it is or appends one message under that limit, and in every state a session
  reaches the history has at most \<open>MAX_MESSAGES\<close> entries.
\<close>

theorem history_capped:
  "length (setMessagesWithLimit xs) \<le> MAX_MESSAGES \<and>
   setMessagesWithLimit xs = drop (length xs - MAX_MESSAGES) xs \<and>
   (messages (step e s) = messages s \<or>
    (\<exists>m. messages (step e s) = setMessagesWithLimit (messages s @ [m]))) \<and>
   length (messages (run evs (init t0))) \<le> MAX_MESSAGES"
proof -
  have "inv (run evs (init t0))" by (rule inv_reachable)
  then have "length (messages (run evs (init t0))) \<le> MAX_MESSAGES"
    by (simp add: inv_def)
  with length_setMessagesWithLimit [of xs] setMessagesWithLimit_drop [of xs]
    step_messages [of e s]
  show ?thesis by blast
qed

section \<open>Blank input\<close>

text \<open>
  Claim C6. When the input is empty or consists of white space only, \<^verbatim>\<open>sendMessage\<close>
  returns at its guard: the state is the same afterwards (history, input, loading flag,
  and no request, controller or timer is created), also for the whole event in a state a
  session reaches.
\<close>

theorem blank_input_is_noop:
  assumes "\<forall>c \<in> set (input s). isWhiteSpace c"
  shows "sendMessage rnd s = s \<and>
         (s = run evs (init t0) \<longrightarrow> step (Submit rnd) s = s)"
proof -
  from assms have blank: "trim (input s) = []" by (simp add: trim_blank)
  then have "sendMessage rnd s = s" by (rule sendMessage_blank)
  moreover have "step (Submit rnd) s = s" if "s = run evs (init t0)"
  proof -
    from that have "inv s" by (simp add: inv_reachable)
    then show ?thesis using blank by (rule step_Submit_blank)
  qed
  ultimately show ?thesis by blast
qed

text \<open>The input of two spaces, where the guard holds and nothing changes.\<close>

theorem blank_input_is_noop_witness:
  "list_all isWhiteSpace (input (run [SetInput ''  ''] (init 0))) \<and>
   sendMessage ''0.4fzyo82mvyr'' (run [SetInput ''  ''] (init 0)) =
     run [SetInput ''  ''] (init 0) \<and>
   step (Submit ''0.4fzyo82mvyr'') (run [SetInput ''  ''] (init 0)) =
     run [SetInput ''  ''] (init 0)"
proof -
  have h: "\<forall>c \<in> set (input (run [SetInput ''  ''] (init 0))). isWhiteSpace c"
    by (simp add: isWhiteSpace_def)
  from blank_input_is_noop [OF h, of "''0.4fzyo82mvyr''" "[SetInput ''  '']" 0] h
  show ?thesis unfolding list_all_iff by blast
qed

lemmas eval_defs =
  init_def sendMessage_def trim_def isWhiteSpace_def cancelPreviousRequest_def
  sendMessage_post_def setMessagesWithLimit_def MAX_MESSAGES_def userMessage_def advance_def
  timer_task_def timeout_callback_def abort_def flush_aborted_def settle_aborted_def
  sendMessage_rejected_def sendMessage_catch_def sendMessage_finally_def canceledError_def
  sendMessage_resolved_def clearTimeout_def response_content_def botMessage_def
  errorMessage_def typeError_def slice_last_def sample_reply_def sample_rate_limited_def
  sample_server_error_def

lemma step_cancels_pending:
  assumes "inv s" "c \<in> set (inflight s)" "c \<in> set (aborted (step e s))"
  shows "messages (step e s) = messages s \<and> c \<notin> set (inflight (step e s)) \<and>
         \<not> isLoading (step e s)"
  using assms(1)
proof (cases rule: inv_cases)
  case idle
  with assms show ?thesis by simp
next
  case (pending c0)
  with assms have c0: "c0 = c" by simp
  have ne: "inflight s \<noteq> []" using pending by simp
  show ?thesis
  proof (cases e)
    case (SetInput v)
    with assms(3) pending c0 show ?thesis by simp
  next
    case (Submit rnd)
    with step_Submit_pending [OF assms(1) ne, of rnd] assms(3) pending c0 show ?thesis
      by (simp del: step.simps)
  next
    case (Resolve c' resp rnd)
    with assms(3) pending c0 show ?thesis
      by (cases "response_content resp")
        (simp_all add: sendMessage_resolved_content sendMessage_resolved_throws
          split: if_splits)
  next
    case (Reject c' err rnd)
    with assms(3) pending c0 show ?thesis
      by (cases "isAxiosError err \<and> name err = ''CanceledError''")
        (simp_all add: sendMessage_rejected_canceled sendMessage_rejected_failed
          split: if_splits)
  next
    case (Advance d)
    show ?thesis
    proof (cases "\<exists>x \<in> set (timers s). snd x \<le> clock s + d")
      case True
      with Advance pending show ?thesis
        by (simp add: advance_pending_due)
    next
      case False
      then have "advance d s = s\<lparr>clock := clock s + d\<rparr>"
        by (intro advance_pending_early) simp
      with Advance assms(3) pending c0 show ?thesis by simp
    qed
  qed
qed

section \<open>Cancelled requests\<close>

text \<open>
  Claim C7. A rejection that is an axios error named \<^verbatim>\<open>CanceledError\<close> is caught by the
  \<^verbatim>\<open>catch\<close> block, which returns without touching the history. And when an event of a
  session aborts the pending request, that event leaves the history as it was and the
  request is no longer in flight: nothing is appended for it.
\<close>

theorem cancellation_is_silent:
  "(isAxiosError err \<and> name err = ''CanceledError'' \<longrightarrow>
      messages (sendMessage_catch err rnd s) = messages s \<and>
      messages (step (Reject c err rnd) s) = messages s) \<and>
   (c \<in> set (inflight (run evs (init t0))) \<and>
    c \<in> set (aborted (step e (run evs (init t0)))) \<longrightarrow>
      messages (step e (run evs (init t0))) = messages (run evs (init t0)) \<and>
      c \<notin> set (inflight (step e (run evs (init t0)))))"
proof -
  have "messages (sendMessage_catch err rnd s) = messages s \<and>
        messages (step (Reject c err rnd) s) = messages s"
    if "isAxiosError err \<and> name err = ''CanceledError''"
    using that by (simp add: sendMessage_catch_def messages_rejected)
  moreover have "messages (step e (run evs (init t0))) = messages (run evs (init t0)) \<and>
      c \<notin> set (inflight (step e (run evs (init t0))))"
    if "c \<in> set (inflight (run evs (init t0))) \<and>
        c \<in> set (aborted (step e (run evs (init t0))))"
    using step_cancels_pending [OF inv_reachable, of c evs t0 e] that by blast
  ultimately show ?thesis by blast
qed

text \<open>
  A request rejected with \<open>canceledError\<close>, and a request aborted by its timer after
  30000 ms: the history is the same before and after.
\<close>

theorem cancellation_is_silent_witness:
  "isAxiosError canceledError \<and> name canceledError = ''CanceledError'' \<and>
   messages (step (Reject 0 canceledError ''0.9x'') (run [SetInput ''hi'', Submit ''0.k2''] (init 0))) =
     messages (run [SetInput ''hi'', Submit ''0.k2''] (init 0)) \<and>
   0 \<in> set (inflight (run [SetInput ''hi'', Submit ''0.k2''] (init 0))) \<and>
   0 \<in> set (aborted (step (Advance 30000) (run [SetInput ''hi'', Submit ''0.k2''] (init 0)))) \<and>
   messages (step (Advance 30000) (run [SetInput ''hi'', Submit ''0.k2''] (init 0))) =
     messages (run [SetInput ''hi'', Submit ''0.k2''] (init 0)) \<and>
   0 \<notin> set (inflight (step (Advance 30000) (run [SetInput ''hi'', Submit ''0.k2''] (init 0))))"
proof -
  have h1: "isAxiosError canceledError \<and> name canceledError = ''CanceledError''"
    by (simp add: canceledError_def)
  have h2: "0 \<in> set (inflight (run [SetInput ''hi'', Submit ''0.k2''] (init 0))) \<and>
    0 \<in> set (aborted (step (Advance 30000) (run [SetInput ''hi'', Submit ''0.k2''] (init 0))))"
    by (simp add: eval_defs)
  from cancellation_is_silent [of canceledError "''0.9x''"
      "run [SetInput ''hi'', Submit ''0.k2''] (init 0)" 0 "[SetInput ''hi'', Submit ''0.k2'']" 0
      "Advance 30000"] h1 h2
  show ?thesis by blast
qed


section \<open>Failed requests\<close>

text \<open>
  Claim C5, amended. When the pending request fails with an error that is not a
  cancellation (an axios error named \<^verbatim>\<open>CanceledError\<close>), one bot message is appended:
  the rate-limit text if the error is an axios error whose response status is 429, the
  generic failure text otherwise. A response whose body cannot be read gets the generic
  failure text as well.
\<close>

theorem failure_message:
  assumes "c \<in> set (inflight s)"
  shows "(\<not> (isAxiosError err \<and> name err = ''CanceledError'') \<longrightarrow>
            messages (step (Reject c err rnd) s) =
              setMessagesWithLimit (messages s @
                [\<lparr>text_msg =
                    (if isAxiosError err \<and> response_status err = Some 429
                     then ''Rate limit exceeded. Please try again later.''
                     else ''Error: Failed to get response''),
                  isUser = False,
                  id_msg = createMessageId (clock s) rnd\<rparr>])) \<and>
         (response_content resp = None \<longrightarrow>
            messages (step (Resolve c resp rnd) s) =
              setMessagesWithLimit (messages s @
                [\<lparr>text_msg = ''Error: Failed to get response'',
                  isUser = False,
                  id_msg = createMessageId (clock s) rnd\<rparr>]))"
  using assms
  by (simp add: messages_rejected messages_resolved errorMessage_def typeError_def)

text \<open>A request answered with status 429, and one answered with an empty body.\<close>

theorem failure_message_witness:
  "0 \<in> set (inflight (run [SetInput ''hi'', Submit ''0.k2''] (init 0))) \<and>
   \<not> (isAxiosError sample_rate_limited \<and> name sample_rate_limited = ''CanceledError'') \<and>
   messages (step (Reject 0 sample_rate_limited ''0.7q'')
       (run [SetInput ''hi'', Submit ''0.k2''] (init 0))) =
     [\<lparr>text_msg = ''hi'', isUser = True, id_msg = createMessageId 0 ''0.k2''\<rparr>,
      \<lparr>text_msg = ''Rate limit exceeded. Please try again later.'', isUser = False,
        id_msg = createMessageId 0 ''0.7q''\<rparr>] \<and>
   response_content \<lparr>data = None\<rparr> = None \<and>
   messages (step (Resolve 0 \<lparr>data = None\<rparr> ''0.7q'')
       (run [SetInput ''hi'', Submit ''0.k2''] (init 0))) =
     [\<lparr>text_msg = ''hi'', isUser = True, id_msg = createMessageId 0 ''0.k2''\<rparr>,
      \<lparr>text_msg = ''Error: Failed to get response'', isUser = False,
        id_msg = createMessageId 0 ''0.7q''\<rparr>]"
proof -
  have h: "0 \<in> set (inflight (run [SetInput ''hi'', Submit ''0.k2''] (init 0)))"
    by (simp add: eval_defs)
  have e: "\<not> (isAxiosError sample_rate_limited \<and> name sample_rate_limited = ''CanceledError'')"
    by (simp add: sample_rate_limited_def)
  have r: "response_content \<lparr>data = None\<rparr> = None"
    by (simp add: response_content_def)
  have m: "messages (run [SetInput ''hi'', Submit ''0.k2''] (init 0)) =
      [\<lparr>text_msg = ''hi'', isUser = True, id_msg = createMessageId 0 ''0.k2''\<rparr>]"
    and c: "clock (run [SetInput ''hi'', Submit ''0.k2''] (init 0)) = 0"
    by (simp_all add: eval_defs)
  have s: "isAxiosError sample_rate_limited \<and> response_status sample_rate_limited = Some 429"
    by (simp add: sample_rate_limited_def)
  from failure_message [OF h, of sample_rate_limited "''0.7q''" "\<lparr>data = None\<rparr>"] h e r s
  show ?thesis
    by (simp del: step.simps run.simps add: m c setMessagesWithLimit_def MAX_MESSAGES_def)
qed

text \<open>
  Claim C5 as stated fails: the second request below is aborted when the timer fires, 30000 ms
  after it was posted. It has failed, with no status 429, and no generic failure message
  is appended: the history ends with its user message.
\<close>

theorem failure_message_counterexample:
  "messages (run [SetInput ''a'', Submit ''0.k2'', Resolve 0 sample_reply ''0.7q'',
       SetInput ''b'', Submit ''0.m5'', Advance 30000] (init 0)) =
     [\<lparr>text_msg = ''a'', isUser = True, id_msg = createMessageId 0 ''0.k2''\<rparr>,
      \<lparr>text_msg = ''Hello!'', isUser = False, id_msg = createMessageId 0 ''0.7q''\<rparr>,
      \<lparr>text_msg = ''b'', isUser = True, id_msg = createMessageId 0 ''0.m5''\<rparr>] \<and>
   inflight (run [SetInput ''a'', Submit ''0.k2'', Resolve 0 sample_reply ''0.7q'',
       SetInput ''b'', Submit ''0.m5''] (init 0)) = [1] \<and>
   timers (run [SetInput ''a'', Submit ''0.k2'', Resolve 0 sample_reply ''0.7q'',
       SetInput ''b'', Submit ''0.m5''] (init 0)) = [(1, 30000)] \<and>
   aborted (run [SetInput ''a'', Submit ''0.k2'', Resolve 0 sample_reply ''0.7q'',
       SetInput ''b'', Submit ''0.m5'', Advance 30000] (init 0)) = [1] \<and>
   inflight (run [SetInput ''a'', Submit ''0.k2'', Resolve 0 sample_reply ''0.7q'',
       SetInput ''b'', Submit ''0.m5'', Advance 30000] (init 0)) = []"
  by (simp add: eval_defs)

lemma inv_settled_idle:
  "inv s \<Longrightarrow> inflight s = [] \<Longrightarrow> \<not> isLoading s \<and> abortControllerRef s = None"
  by (erule inv_cases) auto

lemma inv_inflight_single: "inv s \<Longrightarrow> c \<in> set (inflight s) \<Longrightarrow> inflight s = [c]"
  by (erule inv_cases) auto

lemma step_settles_idle:
  assumes "inv s" "c \<in> set (inflight s)" "c \<notin> set (inflight (step e s))"
  shows "\<not> isLoading (step e s)"
proof -
  from assms(1,2) have "inflight s = [c]" by (rule inv_inflight_single)
  with step_inflight_subset [OF assms(1), of e] assms(3)
  have sub: "set (inflight (step e s)) \<subseteq> {nextId s}" by auto
  from assms(1,2) have "c < nextId s" by (rule inv_inflight_fresh)
  have i: "inv (step e s)" using assms(1) by (rule inv_step)
  show ?thesis
  proof (cases "inflight (step e s) = []")
    case True
    with i show ?thesis by (simp add: inv_settled_idle)
  next
    case False
    then obtain x where x: "x \<in> set (inflight (step e s))" by (cases "inflight (step e s)") auto
    with sub have "x = nextId s" by auto
    with x have n: "nextId s \<in> set (inflight (step e s))" by simp
    have "step e s = s"
    proof (cases e)
      case (Submit rnd)
      from assms(2) have "inflight s \<noteq> []" by auto
      with assms(1) Submit show ?thesis by (simp add: step_Submit_pending del: step.simps)
    next
      case (SetInput v)
      with n \<open>inflight s = [c]\<close> \<open>c < nextId s\<close> show ?thesis by simp
    next
      case (Resolve c' resp rnd)
      with n \<open>inflight s = [c]\<close> \<open>c < nextId s\<close> show ?thesis
        by (cases "response_content resp")
          (simp_all add: sendMessage_resolved_content sendMessage_resolved_throws
            split: if_splits)
    next
      case (Reject c' err rnd)
      with n \<open>inflight s = [c]\<close> \<open>c < nextId s\<close> show ?thesis
        by (cases "isAxiosError err \<and> name err = ''CanceledError''")
          (simp_all add: sendMessage_rejected_canceled sendMessage_rejected_failed
            split: if_splits)
    next
      case (Advance d)
      from assms(1) \<open>inflight s = [c]\<close> have r: "abortControllerRef s = Some c"
        by (auto elim: inv_cases)
      show ?thesis
      proof (cases "\<exists>x \<in> set (timers s). snd x \<le> clock s + d")
        case True
        with Advance n \<open>inflight s = [c]\<close> r show ?thesis
          by (simp add: advance_pending_due)
      next
        case False
        then have "advance d s = s\<lparr>clock := clock s + d\<rparr>"
          by (intro advance_pending_early) simp
        with Advance n \<open>inflight s = [c]\<close> \<open>c < nextId s\<close> show ?thesis by simp
      qed
    qed
    with assms(2,3) show ?thesis by simp
  qed
qed

text \<open>
  Claim C8, amended. Whatever event ends the pending request, the loading flag is down
  afterwards, so the text area is enabled and the send button is disabled only while the
  input is blank. A rejection and a resolution both end the request. A rejection that is
  not a cancellation, and a response whose body cannot be read, append a bot message with
  a text.
\<close>

theorem failure_paths_restore_input:
  assumes "c \<in> set (inflight (run evs (init t0)))"
  shows "(c \<notin> set (inflight (step e (run evs (init t0)))) \<longrightarrow>
            \<not> isLoading (step e (run evs (init t0))) \<and>
            \<not> textarea_disabled (step e (run evs (init t0))) \<and>
            button_disabled (step e (run evs (init t0))) =
              (trim (input (step e (run evs (init t0)))) = [])) \<and>
         c \<notin> set (inflight (step (Reject c err rnd) (run evs (init t0)))) \<and>
         c \<notin> set (inflight (step (Resolve c resp rnd) (run evs (init t0)))) \<and>
         (\<not> (isAxiosError err \<and> name err = ''CanceledError'') \<longrightarrow>
            messages (step (Reject c err rnd) (run evs (init t0))) =
              setMessagesWithLimit (messages (run evs (init t0)) @
                [errorMessage err rnd (run evs (init t0))]) \<and>
            \<not> isUser (errorMessage err rnd (run evs (init t0))) \<and>
            text_msg (errorMessage err rnd (run evs (init t0))) \<noteq> []) \<and>
         (response_content resp = None \<longrightarrow>
            messages (step (Resolve c resp rnd) (run evs (init t0))) =
              setMessagesWithLimit (messages (run evs (init t0)) @
                [errorMessage typeError rnd (run evs (init t0))]) \<and>
            \<not> isUser (errorMessage typeError rnd (run evs (init t0))) \<and>
            text_msg (errorMessage typeError rnd (run evs (init t0))) \<noteq> [])"
proof -
  let ?s = "run evs (init t0)"
  have i: "inv ?s" by (rule inv_reachable)
  from i assms have single: "inflight ?s = [c]" by (rule inv_inflight_single)
  have a: "\<not> isLoading (step e ?s) \<and> \<not> textarea_disabled (step e ?s) \<and>
           button_disabled (step e ?s) = (trim (input (step e ?s)) = [])"
    if "c \<notin> set (inflight (step e ?s))"
    using step_settles_idle [OF i assms that]
    by (simp add: textarea_disabled_def button_disabled_def)
  have b: "c \<notin> set (inflight (step (Reject c err rnd) ?s))"
    using single
    by (cases "isAxiosError err \<and> name err = ''CanceledError''")
      (simp_all add: sendMessage_rejected_canceled sendMessage_rejected_failed)
  have c: "c \<notin> set (inflight (step (Resolve c resp rnd) ?s))"
    using single
    by (cases "response_content resp")
      (simp_all add: sendMessage_resolved_content sendMessage_resolved_throws)
  have d: "messages (step (Reject c err rnd) ?s) =
             setMessagesWithLimit (messages ?s @ [errorMessage err rnd ?s]) \<and>
           \<not> isUser (errorMessage err rnd ?s) \<and> text_msg (errorMessage err rnd ?s) \<noteq> []"
    if "\<not> (isAxiosError err \<and> name err = ''CanceledError'')"
    using that assms by (auto simp: messages_rejected errorMessage_def)
  have e: "messages (step (Resolve c resp rnd) ?s) =
             setMessagesWithLimit (messages ?s @ [errorMessage typeError rnd ?s]) \<and>
           \<not> isUser (errorMessage typeError rnd ?s) \<and>
           text_msg (errorMessage typeError rnd ?s) \<noteq> []"
    if "response_content resp = None"
    using that assms by (auto simp: messages_resolved errorMessage_def)
  from a b c d e show ?thesis by blast
qed


text \<open>
  A pending request ended by its timer, by a response with status 500 and by a response
  with no choices.
\<close>

theorem failure_paths_restore_input_witness:
  "0 \<in> set (inflight (run [SetInput ''hi'', Submit ''0.k2''] (init 0))) \<and>
   0 \<notin> set (inflight (step (Advance 30000) (run [SetInput ''hi'', Submit ''0.k2''] (init 0)))) \<and>
   \<not> isLoading (step (Advance 30000) (run [SetInput ''hi'', Submit ''0.k2''] (init 0))) \<and>
   \<not> textarea_disabled (step (Advance 30000) (run [SetInput ''hi'', Submit ''0.k2''] (init 0))) \<and>
   \<not> (isAxiosError sample_server_error \<and> name sample_server_error = ''CanceledError'') \<and>
   messages (step (Reject 0 sample_server_error ''0.7q'')
       (run [SetInput ''hi'', Submit ''0.k2''] (init 0))) =
     [\<lparr>text_msg = ''hi'', isUser = True, id_msg = createMessageId 0 ''0.k2''\<rparr>,
      \<lparr>text_msg = ''Error: Failed to get response'', isUser = False,
        id_msg = createMessageId 0 ''0.7q''\<rparr>] \<and>
   response_content \<lparr>data = Some \<lparr>choices = Some []\<rparr>\<rparr> = None \<and>
   messages (step (Resolve 0 \<lparr>data = Some \<lparr>choices = Some []\<rparr>\<rparr> ''0.7q'')
       (run [SetInput ''hi'', Submit ''0.k2''] (init 0))) =
     [\<lparr>text_msg = ''hi'', isUser = True, id_msg = createMessageId 0 ''0.k2''\<rparr>,
      \<lparr>text_msg = ''Error: Failed to get response'', isUser = False,
        id_msg = createMessageId 0 ''0.7q''\<rparr>]"
proof -
  have h: "0 \<in> set (inflight (run [SetInput ''hi'', Submit ''0.k2''] (init 0)))"
    by (simp add: eval_defs)
  have g: "0 \<notin> set (inflight (step (Advance 30000)
      (run [SetInput ''hi'', Submit ''0.k2''] (init 0))))"
    by (simp add: eval_defs)
  have e: "\<not> (isAxiosError sample_server_error \<and> name sample_server_error = ''CanceledError'')"
    by (simp add: sample_server_error_def)
  have r: "response_content \<lparr>data = Some \<lparr>choices = Some []\<rparr>\<rparr> = None"
    by (simp add: response_content_def)
  have m: "messages (run [SetInput ''hi'', Submit ''0.k2''] (init 0)) =
      [\<lparr>text_msg = ''hi'', isUser = True, id_msg = createMessageId 0 ''0.k2''\<rparr>]"
    and c: "clock (run [SetInput ''hi'', Submit ''0.k2''] (init 0)) = 0"
    by (simp_all add: eval_defs)
  from failure_paths_restore_input [OF h, of "Advance 30000" sample_server_error "''0.7q''"
      "\<lparr>data = Some \<lparr>choices = Some []\<rparr>\<rparr>"] h g e r
  show ?thesis
    by (simp del: step.simps run.simps
        add: m c setMessagesWithLimit_def MAX_MESSAGES_def errorMessage_def
          sample_server_error_def typeError_def)
qed

text \<open>
  Claim C8 as stated fails: the request below is aborted by its timer, 30000 ms after it
  was posted. The loading flag is down afterwards, and the history holds the user message
  and no entry for the failure.
\<close>

theorem failure_paths_restore_input_counterexample:
  "inflight (run [SetInput ''why?'', Submit ''0.z9'', SetInput ''next'', Advance 29999]
       (init 5000)) = [0] \<and>
   isLoading (run [SetInput ''why?'', Submit ''0.z9'', SetInput ''next'', Advance 29999]
       (init 5000)) \<and>
   inflight (run [SetInput ''why?'', Submit ''0.z9'', SetInput ''next'', Advance 29999,
       Advance 1] (init 5000)) = [] \<and>
   aborted (run [SetInput ''why?'', Submit ''0.z9'', SetInput ''next'', Advance 29999,
       Advance 1] (init 5000)) = [0] \<and>
   \<not> isLoading (run [SetInput ''why?'', Submit ''0.z9'', SetInput ''next'', Advance 29999,
       Advance 1] (init 5000)) \<and>
   messages (run [SetInput ''why?'', Submit ''0.z9'', SetInput ''next'', Advance 29999,
       Advance 1] (init 5000)) =
     [\<lparr>text_msg = ''why?'', isUser = True, id_msg = createMessageId 5000 ''0.z9''\<rparr>]"
  by (simp add: eval_defs)

text \<open>
  The timer is cleared on the path of a resolved promise only. The first request below is
  rejected with status 500, so its timer, due at 30000, stays. The second request is posted
  at 20000; at 30000 the first timer fires and aborts the controller in the ref, which is
  the second request's, 10000 ms after it was posted.
\<close>

lemma stale_timer_aborts_next_request:
  "messages (run [SetInput ''a'', Submit ''0.k2'', Reject 0 sample_server_error ''0.7q'',
       Advance 20000, SetInput ''b'', Submit ''0.m5''] (init 0)) =
     [\<lparr>text_msg = ''a'', isUser = True, id_msg = createMessageId 0 ''0.k2''\<rparr>,
      \<lparr>text_msg = ''Error: Failed to get response'', isUser = False,
        id_msg = createMessageId 0 ''0.7q''\<rparr>,
      \<lparr>text_msg = ''b'', isUser = True, id_msg = createMessageId 20000 ''0.m5''\<rparr>] \<and>
   inflight (run [SetInput ''a'', Submit ''0.k2'', Reject 0 sample_server_error ''0.7q'',
       Advance 20000, SetInput ''b'', Submit ''0.m5''] (init 0)) = [1] \<and>
   timers (run [SetInput ''a'', Submit ''0.k2'', Reject 0 sample_server_error ''0.7q'',
       Advance 20000, SetInput ''b'', Submit ''0.m5''] (init 0)) = [(0, 30000), (1, 50000)] \<and>
   inflight (run [SetInput ''a'', Submit ''0.k2'', Reject 0 sample_server_error ''0.7q'',
       Advance 20000, SetInput ''b'', Submit ''0.m5'', Advance 10000] (init 0)) = [] \<and>
   aborted (run [SetInput ''a'', Submit ''0.k2'', Reject 0 sample_server_error ''0.7q'',
       Advance 20000, SetInput ''b'', Submit ''0.m5'', Advance 10000] (init 0)) = [1] \<and>
   messages (run [SetInput ''a'', Submit ''0.k2'', Reject 0 sample_server_error ''0.7q'',
       Advance 20000, SetInput ''b'', Submit ''0.m5'', Advance 10000] (init 0)) =
     [\<lparr>text_msg = ''a'', isUser = True, id_msg = createMessageId 0 ''0.k2''\<rparr>,
      \<lparr>text_msg = ''Error: Failed to get response'', isUser = False,
        id_msg = createMessageId 0 ''0.7q''\<rparr>,
      \<lparr>text_msg = ''b'', isUser = True, id_msg = createMessageId 20000 ''0.m5''\<rparr>]"
  by (simp add: eval_defs)

lemma accepted_submit:
  assumes "\<not> isLoading (run evs0 (init t0))" "trim (input (run evs0 (init t0))) \<noteq> []"
  shows "step (Submit rnd) (run evs0 (init t0)) =
     (run evs0 (init t0))\<lparr>isLoading := True,
       messages := setMessagesWithLimit
         (messages (run evs0 (init t0)) @ [userMessage rnd (run evs0 (init t0))]),
       input := [],
       abortControllerRef := Some (nextId (run evs0 (init t0))),
       timers := timers (run evs0 (init t0)) @
         [(nextId (run evs0 (init t0)), clock (run evs0 (init t0)) + 30000)],
       inflight := [nextId (run evs0 (init t0))],
       nextId := Suc (nextId (run evs0 (init t0)))\<rparr>"
  using inv_reachable assms by (rule step_Submit_accept)

lemma pending_after_submit:
  assumes "\<not> isLoading (run evs0 (init t0))" "trim (input (run evs0 (init t0))) \<noteq> []"
    and "nextId (run evs0 (init t0)) \<in>
          set (inflight (run evs (step (Submit rnd) (run evs0 (init t0)))))"
  shows "messages (run evs (step (Submit rnd) (run evs0 (init t0)))) =
           setMessagesWithLimit
             (messages (run evs0 (init t0)) @ [userMessage rnd (run evs0 (init t0))])"
    and "(nextId (run evs0 (init t0)), clock (run evs0 (init t0)) + 30000) \<in>
           set (timers (run evs (step (Submit rnd) (run evs0 (init t0)))))"
    and "inv (run evs (step (Submit rnd) (run evs0 (init t0))))"
    and "inflight (run evs (step (Submit rnd) (run evs0 (init t0)))) =
           [nextId (run evs0 (init t0))]"
proof -
  let ?s = "run evs0 (init t0)"
  let ?s1 = "step (Submit rnd) ?s"
  let ?s2 = "run evs ?s1"
  note eq = accepted_submit [OF assms(1,2), of rnd]
  have i1: "inv ?s1" using inv_reachable by (rule inv_step)
  have p1: "nextId ?s \<in> set (inflight ?s1)" by (simp only: eq) simp
  from run_keeps_pending [OF i1 p1 assms(3)]
  have k: "messages ?s2 = messages ?s1" "timers ?s2 = timers ?s1" by simp_all
  have m1: "messages ?s1 = setMessagesWithLimit (messages ?s @ [userMessage rnd ?s])"
    by (simp only: eq) simp
  have t1: "(nextId ?s, clock ?s + 30000) \<in> set (timers ?s1)"
    by (simp only: eq) simp
  from k(1) m1 show "messages ?s2 = setMessagesWithLimit (messages ?s @ [userMessage rnd ?s])"
    by (rule trans)
  from t1 show "(nextId ?s, clock ?s + 30000) \<in> set (timers ?s2)"
    by (simp only: k(2))
  show i2: "inv ?s2" using i1 by (rule inv_run)
  from i2 assms(3) show "inflight ?s2 = [nextId ?s]" by (rule inv_inflight_single)
qed

section \<open>The timeout\<close>

text \<open>
  Claim C2, amended. A submission is accepted in a state a session reaches, and its request
  is still pending after further events. When the clock then reaches the submission time
  plus 30000 ms, the request's controller is aborted, the request is no longer in flight
  and the loading flag is down. The history is what it was after the submission: the limited
  history with the user message, and no failure message.
\<close>

theorem timeout_aborts_silently:
  assumes "\<not> isLoading (run evs0 (init t0))" "trim (input (run evs0 (init t0))) \<noteq> []"
    and "nextId (run evs0 (init t0)) \<in>
          set (inflight (run evs (step (Submit rnd) (run evs0 (init t0)))))"
    and "clock (run evs0 (init t0)) + 30000 \<le>
          clock (run evs (step (Submit rnd) (run evs0 (init t0)))) + d"
  shows "nextId (run evs0 (init t0)) \<in>
           set (aborted (step (Advance d) (run evs (step (Submit rnd) (run evs0 (init t0)))))) \<and>
         nextId (run evs0 (init t0)) \<notin>
           set (inflight (step (Advance d) (run evs (step (Submit rnd) (run evs0 (init t0)))))) \<and>
         messages (step (Advance d) (run evs (step (Submit rnd) (run evs0 (init t0))))) =
           setMessagesWithLimit
             (messages (run evs0 (init t0)) @ [userMessage rnd (run evs0 (init t0))]) \<and>
         \<not> isLoading (step (Advance d) (run evs (step (Submit rnd) (run evs0 (init t0)))))"
proof -
  let ?s = "run evs0 (init t0)"
  let ?s2 = "run evs (step (Submit rnd) ?s)"
  note p = pending_after_submit [OF assms(1,2,3)]
  from p(3,4) have r: "abortControllerRef ?s2 = Some (nextId ?s)"
    by (auto elim: inv_cases)
  from p(2) assms(4) have due: "\<exists>x \<in> set (timers ?s2). snd x \<le> clock ?s2 + d"
    by force
  from advance_pending_due [OF p(4) r due] p(1) show ?thesis
    by simp
qed


text \<open>A request that is pending for 10000 ms, then for another 25000 ms.\<close>

theorem timeout_aborts_silently_witness:
  "\<not> isLoading (run [SetInput ''hi''] (init 0)) \<and>
   trim (input (run [SetInput ''hi''] (init 0))) \<noteq> [] \<and>
   nextId (run [SetInput ''hi''] (init 0)) \<in>
     set (inflight (run [SetInput ''x'', Advance 10000]
       (step (Submit ''0.k2'') (run [SetInput ''hi''] (init 0))))) \<and>
   clock (run [SetInput ''hi''] (init 0)) + 30000 \<le>
     clock (run [SetInput ''x'', Advance 10000]
       (step (Submit ''0.k2'') (run [SetInput ''hi''] (init 0)))) + 25000 \<and>
   nextId (run [SetInput ''hi''] (init 0)) \<in>
     set (aborted (step (Advance 25000) (run [SetInput ''x'', Advance 10000]
       (step (Submit ''0.k2'') (run [SetInput ''hi''] (init 0)))))) \<and>
   messages (step (Advance 25000) (run [SetInput ''x'', Advance 10000]
       (step (Submit ''0.k2'') (run [SetInput ''hi''] (init 0))))) =
     setMessagesWithLimit (messages (run [SetInput ''hi''] (init 0)) @
       [userMessage ''0.k2'' (run [SetInput ''hi''] (init 0))]) \<and>
   \<not> isLoading (step (Advance 25000) (run [SetInput ''x'', Advance 10000]
       (step (Submit ''0.k2'') (run [SetInput ''hi''] (init 0)))))"
proof -
  have h1: "\<not> isLoading (run [SetInput ''hi''] (init 0))"
    by (simp add: init_def)
  have h2: "trim (input (run [SetInput ''hi''] (init 0))) \<noteq> []"
    by (simp add: init_def trim_def isWhiteSpace_def)
  have h3: "nextId (run [SetInput ''hi''] (init 0)) \<in>
     set (inflight (run [SetInput ''x'', Advance 10000]
       (step (Submit ''0.k2'') (run [SetInput ''hi''] (init 0)))))"
    by (simp add: eval_defs)
  have h4: "clock (run [SetInput ''hi''] (init 0)) + 30000 \<le>
     clock (run [SetInput ''x'', Advance 10000]
       (step (Submit ''0.k2'') (run [SetInput ''hi''] (init 0)))) + 25000"
    by (simp add: eval_defs)
  from timeout_aborts_silently [OF h1 h2 h3 h4] h1 h2 h3 h4 show ?thesis by blast
qed

text \<open>
  Claim C2 as stated fails: after 30000 ms the request is aborted and nothing is in flight,
  and the history holds the user message only.
\<close>

theorem timeout_aborts_silently_counterexample:
  "inflight (run [SetInput ''hi'', Submit ''0.k2''] (init 0)) = [0] \<and>
   timers (run [SetInput ''hi'', Submit ''0.k2''] (init 0)) = [(0, 30000)] \<and>
   aborted (run [SetInput ''hi'', Submit ''0.k2'', Advance 30000] (init 0)) = [0] \<and>
   inflight (run [SetInput ''hi'', Submit ''0.k2'', Advance 30000] (init 0)) = [] \<and>
   messages (run [SetInput ''hi'', Submit ''0.k2'', Advance 30000] (init 0)) =
     [\<lparr>text_msg = ''hi'', isUser = True, id_msg = createMessageId 0 ''0.k2''\<rparr>]"
  by (simp add: eval_defs)

lemma setMessagesWithLimit_snoc_not_Nil: "setMessagesWithLimit (xs @ [m]) \<noteq> []"
  by (simp add: setMessagesWithLimit_drop MAX_MESSAGES_def)

section \<open>The user message\<close>

text \<open>
  Claim C10, amended. A submission with a trimmed input that is not empty, made in a state
  a session reaches in which the loading flag is down: no request is in flight then, the
  request is posted from a state whose history already ends with the user message, whose
  text is the trimmed input, and the posted request is the only one in flight. After the
  submission the history ends with that message, and it still does after any further
  events for as long as the request is pending. The event that comes next, whichever it is
  (a response, a rejection, a timer, a cancellation), leaves that message in the history.
\<close>

theorem user_message_persists:
  assumes "\<not> isLoading (run evs0 (init t0))" "trim (input (run evs0 (init t0))) \<noteq> []"
  shows "sendMessage rnd (run evs0 (init t0)) =
           sendMessage_post ((run evs0 (init t0))\<lparr>isLoading := True,
             messages := setMessagesWithLimit
               (messages (run evs0 (init t0)) @ [userMessage rnd (run evs0 (init t0))]),
             input := []\<rparr>) \<and>
         inflight (run evs0 (init t0)) = [] \<and>
         inflight (step (Submit rnd) (run evs0 (init t0))) = [nextId (run evs0 (init t0))] \<and>
         text_msg (userMessage rnd (run evs0 (init t0))) = trim (input (run evs0 (init t0))) \<and>
         isUser (userMessage rnd (run evs0 (init t0))) \<and>
         last (messages (step (Submit rnd) (run evs0 (init t0)))) =
           userMessage rnd (run evs0 (init t0)) \<and>
         (nextId (run evs0 (init t0)) \<in>
            set (inflight (run evs (step (Submit rnd) (run evs0 (init t0))))) \<longrightarrow>
          last (messages (run evs (step (Submit rnd) (run evs0 (init t0))))) =
            userMessage rnd (run evs0 (init t0)) \<and>
          userMessage rnd (run evs0 (init t0)) \<in>
            set (messages (step e (run evs (step (Submit rnd) (run evs0 (init t0)))))))"
proof -
  let ?s = "run evs0 (init t0)"
  let ?u = "userMessage rnd ?s"
  let ?s1 = "step (Submit rnd) ?s"
  have i: "inv ?s" by (rule inv_reachable)
  with assms(1) have n0: "inflight ?s = []"
    using inv_pending_loading by blast
  with i have ref: "abortControllerRef ?s = None" by (simp add: inv_settled_idle)
  have a: "sendMessage rnd ?s =
      sendMessage_post (?s\<lparr>isLoading := True,
        messages := setMessagesWithLimit (messages ?s @ [?u]), input := []\<rparr>)"
    using assms ref by (simp add: sendMessage_def cancelPreviousRequest_def Let_def)
  have b: "text_msg ?u = trim (input ?s) \<and> isUser ?u"
    by (simp add: userMessage_def)
  have m1: "messages ?s1 = setMessagesWithLimit (messages ?s @ [?u])"
    by (simp only: accepted_submit [OF assms]) simp
  then have c: "last (messages ?s1) = ?u"
    by (simp only: last_setMessagesWithLimit)
  have n1: "inflight ?s1 = [nextId ?s]"
    by (simp only: accepted_submit [OF assms]) simp
  have d: "last (messages (run evs ?s1)) = ?u \<and> ?u \<in> set (messages (step e (run evs ?s1)))"
    if p: "nextId ?s \<in> set (inflight (run evs ?s1))"
  proof -
    let ?s2 = "run evs ?s1"
    have m2: "messages ?s2 = setMessagesWithLimit (messages ?s @ [?u])"
      using assms p by (rule pending_after_submit(1))
    then have l: "last (messages ?s2) = ?u" by (simp only: last_setMessagesWithLimit)
    from m2 have ne: "messages ?s2 \<noteq> []" by (simp only: setMessagesWithLimit_snoc_not_Nil) simp
    from ne have mem: "last (messages ?s2) \<in> set (messages ?s2)" by (rule last_in_set)
    from step_messages [of e ?s2] have "last (messages ?s2) \<in> set (messages (step e ?s2))"
    proof
      assume "messages (step e ?s2) = messages ?s2"
      with mem show ?thesis by simp
    next
      assume "\<exists>m. messages (step e ?s2) = setMessagesWithLimit (messages ?s2 @ [m])"
      then obtain m where "messages (step e ?s2) = setMessagesWithLimit (messages ?s2 @ [m])" ..
      with last_in_setMessagesWithLimit [OF ne, of m] show ?thesis by simp
    qed
    with l show ?thesis by simp
  qed
  from a n0 n1 b c d show ?thesis by blast
qed


text \<open>A request that is rejected with status 500 after 500 ms.\<close>

theorem user_message_persists_witness:
  "\<not> isLoading (run [SetInput '' hi ''] (init 0)) \<and>
   trim (input (run [SetInput '' hi ''] (init 0))) \<noteq> [] \<and>
   text_msg (userMessage ''0.k2'' (run [SetInput '' hi ''] (init 0))) = ''hi'' \<and>
   last (messages (step (Submit ''0.k2'') (run [SetInput '' hi ''] (init 0)))) =
     userMessage ''0.k2'' (run [SetInput '' hi ''] (init 0)) \<and>
   nextId (run [SetInput '' hi ''] (init 0)) \<in>
     set (inflight (run [Advance 500] (step (Submit ''0.k2'') (run [SetInput '' hi ''] (init 0))))) \<and>
   userMessage ''0.k2'' (run [SetInput '' hi ''] (init 0)) \<in>
     set (messages (step (Reject 0 sample_server_error ''0.7q'')
       (run [Advance 500] (step (Submit ''0.k2'') (run [SetInput '' hi ''] (init 0))))))"
proof -
  have h1: "\<not> isLoading (run [SetInput '' hi ''] (init 0))"
    by (simp add: init_def)
  have h2: "trim (input (run [SetInput '' hi ''] (init 0))) \<noteq> []"
    by (simp add: init_def trim_def isWhiteSpace_def)
  have h3: "nextId (run [SetInput '' hi ''] (init 0)) \<in>
     set (inflight (run [Advance 500] (step (Submit ''0.k2'') (run [SetInput '' hi ''] (init 0)))))"
    by (simp add: eval_defs)
  have t: "trim (input (run [SetInput '' hi ''] (init 0))) = ''hi''"
    by (simp add: init_def trim_def isWhiteSpace_def)
  from user_message_persists [OF h1 h2, of "''0.k2''" "[Advance 500]"
      "Reject 0 sample_server_error ''0.7q''"] h1 h2 h3 t
  show ?thesis by (simp del: step.simps run.simps)
qed

text \<open>
  Claim C10 as stated fails for a submission made while a request is pending: the trimmed
  input below is \<open>b\<close>, the loading flag is up, and the submission appends no user message
  and posts no request.
\<close>

theorem user_message_persists_counterexample:
  "trim (input (run [SetInput ''a'', Submit ''0.k2'', SetInput ''b''] (init 0))) = ''b'' \<and>
   isLoading (run [SetInput ''a'', Submit ''0.k2'', SetInput ''b''] (init 0)) \<and>
   messages (run [SetInput ''a'', Submit ''0.k2'', SetInput ''b''] (init 0)) =
     [\<lparr>text_msg = ''a'', isUser = True, id_msg = createMessageId 0 ''0.k2''\<rparr>] \<and>
   messages (step (Submit ''0.m5'')
       (run [SetInput ''a'', Submit ''0.k2'', SetInput ''b''] (init 0))) =
     [\<lparr>text_msg = ''a'', isUser = True, id_msg = createMessageId 0 ''0.k2''\<rparr>] \<and>
   inflight (step (Submit ''0.m5'')
       (run [SetInput ''a'', Submit ''0.k2'', SetInput ''b''] (init 0))) = [0] \<and>
   nextId (step (Submit ''0.m5'')
       (run [SetInput ''a'', Submit ''0.k2'', SetInput ''b''] (init 0))) = 1"
  by (simp add: eval_defs)

section \<open>A successful exchange\<close>




section \<open>A submission while a request is pending\<close>

text \<open>
  Claim C1, amended. In a state a session reaches with a request pending, a submission
  changes nothing: \<^verbatim>\<open>sendMessage\<close> returns at its guard, since the loading flag is up. The
  pending request stays the only one in flight and is not aborted, and when it resolves
  after that submission its bot message is appended.
\<close>

theorem pending_blocks_submit:
  assumes "c \<in> set (inflight (run evs (init t0)))"
  shows "step (Submit rnd) (run evs (init t0)) = run evs (init t0) \<and>
         inflight (step (Submit rnd) (run evs (init t0))) = [c] \<and>
         c \<notin> set (aborted (step (Submit rnd) (run evs (init t0)))) \<and>
         (response_content resp = Some txt \<longrightarrow>
            messages (run [Submit rnd, Resolve c resp r2] (run evs (init t0))) =
              setMessagesWithLimit (messages (run evs (init t0)) @
                [\<lparr>text_msg = txt, isUser = False,
                   id_msg = createMessageId (clock (run evs (init t0))) r2\<rparr>]))"
proof -
  let ?s = "run evs (init t0)"
  have i: "inv ?s" by (rule inv_reachable)
  from assms have ne: "inflight ?s \<noteq> []" by auto
  from i ne have same: "step (Submit rnd) ?s = ?s" by (rule step_Submit_pending)
  from i assms have single: "inflight ?s = [c]" by (rule inv_inflight_single)
  from i single have na: "c \<notin> set (aborted ?s)" by (auto elim: inv_cases)
  have r: "messages (run [Submit rnd, Resolve c resp r2] ?s) =
      setMessagesWithLimit (messages ?s @
        [\<lparr>text_msg = txt, isUser = False, id_msg = createMessageId (clock ?s) r2\<rparr>])"
    if "response_content resp = Some txt"
  proof -
    have "run [Submit rnd, Resolve c resp r2] ?s = step (Resolve c resp r2) ?s"
      by (simp only: run.simps same)
    with that assms show ?thesis
      by (simp add: messages_resolved botMessage_def)
  qed
  from same single na r show ?thesis by (simp del: step.simps run.simps)
qed

text \<open>A second submission with the input \<open>b\<close> while request 0 is pending.\<close>

theorem pending_blocks_submit_witness:
  "0 \<in> set (inflight (run [SetInput ''a'', Submit ''0.k2'', SetInput ''b''] (init 0))) \<and>
   step (Submit ''0.m5'') (run [SetInput ''a'', Submit ''0.k2'', SetInput ''b''] (init 0)) =
     run [SetInput ''a'', Submit ''0.k2'', SetInput ''b''] (init 0) \<and>
   response_content sample_reply = Some ''Hello!'' \<and>
   messages (run [Submit ''0.m5'', Resolve 0 sample_reply ''0.7q'']
       (run [SetInput ''a'', Submit ''0.k2'', SetInput ''b''] (init 0))) =
     setMessagesWithLimit
       (messages (run [SetInput ''a'', Submit ''0.k2'', SetInput ''b''] (init 0)) @
        [\<lparr>text_msg = ''Hello!'', isUser = False,
           id_msg = createMessageId
             (clock (run [SetInput ''a'', Submit ''0.k2'', SetInput ''b''] (init 0))) ''0.7q''\<rparr>])"
proof -
  have h: "0 \<in> set (inflight (run [SetInput ''a'', Submit ''0.k2'', SetInput ''b''] (init 0)))"
    by (simp add: eval_defs)
  have r: "response_content sample_reply = Some ''Hello!''"
    by (simp add: response_content_def sample_reply_def)
  from pending_blocks_submit [OF h, of "''0.m5''" sample_reply "''Hello!''" "''0.7q''"] h r
  show ?thesis by blast
qed

text \<open>
  Claim C1 as stated fails: the second submission creates no request and aborts nothing,
  request 0 stays in flight, and the message appended afterwards is the answer to the
  first submission.
\<close>

theorem pending_blocks_submit_counterexample:
  "inflight (run [SetInput ''a'', Submit ''0.k2'', SetInput ''b''] (init 0)) = [0] \<and>
   input (run [SetInput ''a'', Submit ''0.k2'', SetInput ''b''] (init 0)) = ''b'' \<and>
   inflight (run [SetInput ''a'', Submit ''0.k2'', SetInput ''b'', Submit ''0.m5''] (init 0)) = [0] \<and>
   aborted (run [SetInput ''a'', Submit ''0.k2'', SetInput ''b'', Submit ''0.m5''] (init 0)) = [] \<and>
   nextId (run [SetInput ''a'', Submit ''0.k2'', SetInput ''b'', Submit ''0.m5''] (init 0)) = 1 \<and>
   messages (run [SetInput ''a'', Submit ''0.k2'', SetInput ''b'', Submit ''0.m5''] (init 0)) =
     [\<lparr>text_msg = ''a'', isUser = True, id_msg = createMessageId 0 ''0.k2''\<rparr>] \<and>
   messages (run [SetInput ''a'', Submit ''0.k2'', SetInput ''b'', Submit ''0.m5'',
       Resolve 0 sample_reply ''0.7q''] (init 0)) =
     [\<lparr>text_msg = ''a'', isUser = True, id_msg = createMessageId 0 ''0.k2''\<rparr>,
      \<lparr>text_msg = ''Hello!'', isUser = False, id_msg = createMessageId 0 ''0.7q''\<rparr>]"
  by (simp add: eval_defs)

section \<open>Two messages with one id\<close>

text \<open>
  Claim C9. The source calls the id a unique identifier, at the field of \<^verbatim>\<open>Message\<close> and
  at \<^verbatim>\<open>createMessageId\<close>, and uses it as the key of the rendered message.
  \<^verbatim>\<open>createMessageId\<close> does not make it one: in the session below the user message and
  the bot message are built in the same millisecond, 1762000000000, with the same random
  string, and both get the id \<open>mhg9b18gabc\<close>, so the history holds one id twice.
\<close>

theorem message_ids_collide:
  "map id_msg (messages
      (run [SetInput ''hi'', Submit ''0.abc'', Resolve 0 sample_reply ''0.abc'']
        (init 1762000000000))) = [''mhg9b18gabc'', ''mhg9b18gabc''] \<and>
   map isUser (messages
      (run [SetInput ''hi'', Submit ''0.abc'', Resolve 0 sample_reply ''0.abc'']
        (init 1762000000000))) = [True, False] \<and>
   \<not> distinct (map id_msg (messages
      (run [SetInput ''hi'', Submit ''0.abc'', Resolve 0 sample_reply ''0.abc'']
        (init 1762000000000))))"
  by (simp add: eval_defs createMessageId_def toString36.simps digits36_def)

end
